theory Spec2Isabelle
  imports Main
begin

section \<open>The loop primitive: model\<close>

text \<open>
  \<^verbatim>\<open>l_async::loop\<close> is a shared pointer to a pair of the body callable and a boolean.
  The body receives the loop itself as its continuation \<open>next\<close>.  A body invocation is a
  piece of user code that works on the captured context and may, any number of times, call
  its continuation synchronously before it returns.  Such an invocation is described by
  the tree of its interactions with the library: it either returns, leaving the context
  in some state, or it calls the continuation, having left the context in some state, and
  carries on from whatever context it finds when that call comes back.
\<close>

datatype 's body_run =
    Return 's
  | Call_next 's "'s \<Rightarrow> 's body_run"

type_synonym 's body = "'s \<Rightarrow> 's body_run"

text \<open>
  The shared record: \<open>flag\<close> is \<open>body->second\<close>, \<open>ctx\<close> is the capture block of
  \<open>body->first\<close>.  The remaining fields are observers that the program does not have:
  \<open>active\<close> counts the body invocations currently in progress (the \<open>depth\<close> counter
  of the repository's loop test), \<open>peak\<close> is the largest value \<open>active\<close> ever had,
  \<open>invocations\<close> counts the body invocations started and \<open>continues\<close> the calls
  of the continuation made by the body.
\<close>

record 's loop_state =
  flag :: bool
  ctx :: 's
  active :: nat
  peak :: nat
  invocations :: nat
  continues :: nat

definition enter :: "'s loop_state \<Rightarrow> 's loop_state" where
  "enter st = st\<lparr>active := Suc (active st),
                 peak := max (peak st) (Suc (active st)),
                 invocations := Suc (invocations st)\<rparr>"

definition leave :: "'s loop_state \<Rightarrow> 's loop_state" where
  "leave st = st\<lparr>active := active st - 1\<rparr>"

text \<open>
  \<^verbatim>\<open>void operator() () { while ((body->second = !body->second)) body->first(*this); }\<close>

  \<open>drive\<close> is \<open>operator()\<close> and \<open>invoke\<close> runs one body invocation, whose calls of
  the continuation are calls of \<open>operator()\<close> on the same record.  A body may call its
  continuation for ever, so both take fuel: \<open>Returned st\<close> says that the call has
  returned and left the record \<open>st\<close>, and \<open>Cut_off st\<close> that the fuel ran out when
  the record was \<open>st\<close>.
\<close>

datatype 's loop_run = Returned "'s loop_state" | Cut_off "'s loop_state"

fun last_state :: "'s loop_run \<Rightarrow> 's loop_state" where
  "last_state (Returned st) = st"
| "last_state (Cut_off st) = st"

fun drive :: "nat \<Rightarrow> 's body \<Rightarrow> 's loop_state \<Rightarrow> 's loop_run"
  and invoke :: "nat \<Rightarrow> 's body \<Rightarrow> 's body_run \<Rightarrow> 's loop_state \<Rightarrow> 's loop_run"
where
  "drive 0 B st = Cut_off st"
| "drive (Suc n) B st =
     (let st1 = st\<lparr>flag := \<not> flag st\<rparr> in
      if flag st1 then
        (case invoke n B (B (ctx st1)) (enter st1) of
           Cut_off st2 \<Rightarrow> Cut_off st2
         | Returned st2 \<Rightarrow> drive n B (leave st2))
      else Returned st1)"
| "invoke 0 B r st = Cut_off st"
| "invoke (Suc n) B (Return s) st = Returned (st\<lparr>ctx := s\<rparr>)"
| "invoke (Suc n) B (Call_next s k) st =
     (case drive n B (st\<lparr>ctx := s, continues := Suc (continues st)\<rparr>) of
        Cut_off st1 \<Rightarrow> Cut_off st1
      | Returned st1 \<Rightarrow> invoke n B (k (ctx st1)) st1)"

text \<open>
  The constructor makes the shared record with the flag \<open>false\<close> and calls
  \<open>operator()\<close>.
\<close>

definition new_record :: "'s \<Rightarrow> 's loop_state" where
  "new_record c = \<lparr>flag = False, ctx = c, active = 0, peak = 0, invocations = 0, continues = 0\<rparr>"

definition loop :: "nat \<Rightarrow> 's body \<Rightarrow> 's \<Rightarrow> 's loop_run" where
  "loop n B c = drive n B (new_record c)"


text \<open>
  A body invocation that returns without a further call of the continuation, and one
  that calls the continuation at most once before it returns.  \<open>one_shot\<close> bodies use
  their continuation the way the repository's tests, examples and documentation do:
  each invocation either ignores it, hands it on, or calls it a single time.
\<close>

fun returns :: "'s body_run \<Rightarrow> bool" where
  "returns (Return s) = True"
| "returns (Call_next s k) = False"

fun calls_once :: "'s body_run \<Rightarrow> bool" where
  "calls_once (Return s) = True"
| "calls_once (Call_next s k) = (\<forall>c. returns (k c))"

definition one_shot :: "'s body \<Rightarrow> bool" where
  "one_shot B = (\<forall>c. calls_once (B c))"

text \<open>
  Two bodies over a counter.  \<open>countdown\<close> calls its continuation once per invocation
  until the counter is zero.  \<open>twice\<close> calls it two times in its first invocation.
\<close>

definition countdown :: "nat body" where
  "countdown c = (if c = 0 then Return 0 else Call_next (c - 1) Return)"

definition twice :: "nat body" where
  "twice c = (if c = 0 then Call_next 1 (\<lambda>c'. Call_next c' Return) else Return c)"

text \<open>
  \<open>nest d\<close> calls its continuation two times in every invocation that finds the counter
  below \<open>d\<close>.
\<close>

definition nest :: "nat \<Rightarrow> nat body" where
  "nest d c = (if c < d then Call_next (Suc c) (\<lambda>c'. Call_next c' Return) else Return c)"

section \<open>Shared ownership\<close>

text \<open>
  Both the result cell and the slot keep their record behind a \<^verbatim>\<open>std::shared_ptr\<close>.
  \<open>Shared n d\<close> is a live control block: \<open>n\<close> strong owners and the object \<open>d\<close>.
  \<open>Expired\<close> is the block after the last strong owner has gone: the object has been
  destroyed, and a \<^verbatim>\<open>weak_ptr\<close> to it no longer locks.

  \<open>acquire\<close> is the copy of a strong pointer, \<open>release\<close> the destruction of one: the
  owner that takes the count to zero runs the destructor of the object, whose effect is
  the list of callback calls that \<open>dtor\<close> gives.  \<open>modify\<close> is a write through a
  strong pointer.
\<close>

datatype 'd shared = Shared nat 'd | Expired

fun acquire :: "'d shared \<Rightarrow> 'd shared" where
  "acquire (Shared n d) = Shared (Suc n) d"
| "acquire Expired = Expired"

fun release :: "('d \<Rightarrow> 'c list) \<Rightarrow> 'd shared \<Rightarrow> 'd shared \<times> 'c list" where
  "release dtor (Shared n d) = (if n \<le> 1 then (Expired, dtor d) else (Shared (n - 1) d, []))"
| "release dtor Expired = (Expired, [])"

fun modify :: "('d \<Rightarrow> 'd) \<Rightarrow> 'd shared \<Rightarrow> 'd shared" where
  "modify f (Shared n d) = Shared n (f d)"
| "modify f Expired = Expired"

section \<open>The result cell: model\<close>

text \<open>
  \<^verbatim>\<open>struct data_t { T data; std::function<void(T)> callback;
      ~data_t() { callback(std::move(data)); } };\<close>

  The finalizer is a value of an arbitrary type \<open>'f\<close>; what the program does with it
  is to call it, and a call is recorded as \<open>Finalizer_call f v\<close>.
\<close>

record ('a, 'f) data_t =
  data :: 'a
  callback :: 'f

datatype ('f, 'a) finalizer_call = Finalizer_call 'f 'a

definition data_t_dtor :: "('a, 'f) data_t \<Rightarrow> ('f, 'a) finalizer_call list" where
  "data_t_dtor d = [Finalizer_call (callback d) (data d)]"

text \<open>
  The program around one cell: \<open>ptr\<close> is the control block, \<open>handles\<close> the number of
  \<^verbatim>\<open>result\<close> objects alive (each holds the shared pointer), \<open>setters\<close> the closures
  made by \<^verbatim>\<open>setter\<close> that are alive, each with the field it assigns to (given as the
  function that stores a value in that field of the cell's data), and \<open>fired\<close> the calls
  of the finalizer made so far.
\<close>

record ('a, 'f, 'x) cell_world =
  ptr :: "('a, 'f) data_t shared"
  handles :: nat
  setters :: "('x \<Rightarrow> 'a \<Rightarrow> 'a) list"
  fired :: "('f, 'a) finalizer_call list"

text \<open>
  \<^verbatim>\<open>result(std::function<void(T)> callback, T initial_value = T())
      : ptr(std::make_shared<data_t>(std::move(initial_value), std::move(callback)))\<close>
\<close>

definition result :: "'f \<Rightarrow> 'a \<Rightarrow> ('a, 'f, 'x) cell_world" where
  "result cb initial_value =
     \<lparr>ptr = Shared 1 \<lparr>data = initial_value, callback = cb\<rparr>,
      handles = 1, setters = [], fired = []\<rparr>"

definition drop_owner :: "('a, 'f, 'x) cell_world \<Rightarrow> ('a, 'f, 'x) cell_world" where
  "drop_owner w = (case release data_t_dtor (ptr w) of
                     (p, calls) \<Rightarrow> w\<lparr>ptr := p, fired := fired w @ calls\<rparr>)"

text \<open>
  What the holders of a cell can do.  \<open>Copy\<close> copies a handle; \<open>Write f\<close> changes the
  value through \<^verbatim>\<open>operator*\<close> or \<^verbatim>\<open>operator->\<close> of a handle (an assignment of \<open>v\<close> is
  \<open>Write (\<lambda>_. v)\<close>); \<open>Destroy\<close> ends the life of a handle; \<open>Setter put\<close> is
  \<^verbatim>\<open>setter(dst)\<close> for the field that \<open>put\<close> stores into, which returns the closure
  \<^verbatim>\<open>[dst = &dst, holder = ptr](X value) { *dst = move(value); }\<close>;
  \<open>Call_setter i x\<close> calls the \<open>i\<close>-th live closure with \<open>x\<close>,
  \<open>Copy_setter i\<close> copies it (the closure is a copyable \<^verbatim>\<open>std::function\<close>, and
  the copy has its own copy of \<^verbatim>\<open>holder\<close> and the same \<^verbatim>\<open>dst\<close>) and
  \<open>Destroy_setter i\<close> ends its life.  A step is \<open>None\<close> when the holder it needs does
  not exist.
\<close>

datatype ('a, 'x) cell_op =
    Copy
  | Write "'a \<Rightarrow> 'a"
  | Destroy
  | Setter "'x \<Rightarrow> 'a \<Rightarrow> 'a"
  | Call_setter nat 'x
  | Copy_setter nat
  | Destroy_setter nat

fun cell_step ::
  "('a, 'x) cell_op \<Rightarrow> ('a, 'f, 'x) cell_world \<Rightarrow> ('a, 'f, 'x) cell_world option" where
  "cell_step Copy w =
     (if handles w = 0 then None
      else Some (w\<lparr>ptr := acquire (ptr w), handles := Suc (handles w)\<rparr>))"
| "cell_step (Write f) w =
     (if handles w = 0 then None
      else Some (w\<lparr>ptr := modify (\<lambda>d. d\<lparr>data := f (data d)\<rparr>) (ptr w)\<rparr>))"
| "cell_step Destroy w =
     (if handles w = 0 then None
      else Some (drop_owner (w\<lparr>handles := handles w - 1\<rparr>)))"
| "cell_step (Setter put) w =
     (if handles w = 0 then None
      else Some (w\<lparr>ptr := acquire (ptr w), setters := setters w @ [put]\<rparr>))"
| "cell_step (Call_setter i x) w =
     (if i < length (setters w)
      then Some (w\<lparr>ptr := modify (\<lambda>d. d\<lparr>data := (setters w ! i) x (data d)\<rparr>) (ptr w)\<rparr>)
      else None)"
| "cell_step (Copy_setter i) w =
     (if i < length (setters w)
      then Some (w\<lparr>ptr := acquire (ptr w), setters := setters w @ [setters w ! i]\<rparr>)
      else None)"
| "cell_step (Destroy_setter i) w =
     (if i < length (setters w)
      then Some (drop_owner (w\<lparr>setters := take i (setters w) @ drop (Suc i) (setters w)\<rparr>))
      else None)"

fun cell_run ::
  "('a, 'x) cell_op list \<Rightarrow> ('a, 'f, 'x) cell_world \<Rightarrow> ('a, 'f, 'x) cell_world option" where
  "cell_run [] w = Some w"
| "cell_run (op # ops) w =
     (case cell_step op w of None \<Rightarrow> None | Some w' \<Rightarrow> cell_run ops w')"


text \<open>
  What a cell looks like as long as it is in use, and once it is not: the use count is
  the number of live handles and setter closures and the finalizer has not been called;
  or nobody holds the cell and the finalizer has been called one time.
\<close>

definition cell_inv :: "'f \<Rightarrow> ('a, 'f, 'x) cell_world \<Rightarrow> bool" where
  "cell_inv cb w =
     (case ptr w of
        Shared n d \<Rightarrow> n = handles w + length (setters w) \<and> 0 < n \<and> fired w = []
                        \<and> callback d = cb
      | Expired \<Rightarrow> handles w = 0 \<and> setters w = [] \<and> (\<exists>v. fired w = [Finalizer_call cb v]))"

text \<open>The two fields of a pair as setter targets.\<close>

definition put_first :: "'x \<Rightarrow> 'x \<times> 'y \<Rightarrow> 'x \<times> 'y" where
  "put_first x p = (x, snd p)"

definition put_second :: "'y \<Rightarrow> 'x \<times> 'y \<Rightarrow> 'x \<times> 'y" where
  "put_second y p = (fst p, y)"

section \<open>The slot: model\<close>

text \<open>
  \<^verbatim>\<open>struct data { std::function<void(bool)> who_awaits_request;
                 std::function<void(T)> who_awaits_data; ~data(); };\<close>

  An empty \<^verbatim>\<open>std::function\<close> is \<open>None\<close>.  The listeners are values of arbitrary
  types \<open>'r\<close> and \<open>'h\<close>: the slot stores them, moves them and calls them.  Every
  method of the slot calls a listener, if at all, as its last statement, so a method is
  given by the record it leaves and the calls it makes; the record it leaves is the one
  the called listener finds.  A failed \<^verbatim>\<open>assert\<close> ends the program and is the
  result \<open>Inl Assertion_failed\<close>.
\<close>

datatype error = Assertion_failed

record ('r, 'h) slot_data =
  who_awaits_request :: "'r option"
  who_awaits_data :: "'h option"

datatype ('r, 'h, 'v) call =
    Request_listener 'r bool
  | Data_listener 'h 'v

text \<open>
  \<^verbatim>\<open>~data() { if (who_awaits_request) { who_awaits_request(/*terminate=*/true); } }\<close>
\<close>

definition slot_data_dtor :: "('r, 'h) slot_data \<Rightarrow> ('r, 'h, 'v) call list" where
  "slot_data_dtor d =
     (case who_awaits_request d of
        Some r \<Rightarrow> [Request_listener r True]
      | None \<Rightarrow> [])"

text \<open>\<^verbatim>\<open>slot() : ptr(std::make_shared<data>())\<close>\<close>

definition slot :: "('r, 'h) slot_data shared" where
  "slot = Shared 1 \<lparr>who_awaits_request = None, who_awaits_data = None\<rparr>"

text \<open>
  A provider holds a \<^verbatim>\<open>std::weak_ptr\<close>.  \<^verbatim>\<open>ptr.lock()\<close> gives no pointer when the
  block has expired and otherwise a new strong owner \<^verbatim>\<open>p\<close>, which lives to the end of
  the method, that is, until the listener called by the method has returned.  The block
  that \<open>await\<close> and \<open>deliver\<close> return is the block at the call of the listener, with
  \<^verbatim>\<open>p\<close> still counted; \<^verbatim>\<open>p\<close> is given up by \<open>release slot_data_dtor\<close> afterwards.
\<close>

fun lock :: "'d shared \<Rightarrow> 'd shared option" where
  "lock (Shared n d) = Some (Shared (Suc n) d)"
| "lock Expired = None"

text \<open>
  \<^verbatim>\<open>void await(std::function<void(bool)> request_listener) {
      if (auto p = ptr.lock()) {
          assert(!p->who_awaits_request);
          if (p->who_awaits_data) { request_listener(/*terminate=*/false); }
          else { p->who_awaits_request = move(request_listener); }
      } else { request_listener(/*terminate=*/true); } }\<close>
\<close>

definition await ::
  "'r \<Rightarrow> ('r, 'h) slot_data shared
      \<Rightarrow> error + ('r, 'h) slot_data shared \<times> ('r, 'h, 'v) call list" where
  "await request_listener wp =
     (case lock wp of
        Some (Shared n p) \<Rightarrow>
          if who_awaits_request p \<noteq> None then Inl Assertion_failed
          else if who_awaits_data p \<noteq> None
            then Inr (Shared n p, [Request_listener request_listener False])
            else Inr (Shared n (p\<lparr>who_awaits_request := Some request_listener\<rparr>), [])
      | _ \<Rightarrow> Inr (wp, [Request_listener request_listener True]))"

text \<open>
  \<^verbatim>\<open>void operator() (T value) {
      if (auto p = ptr.lock()) {
          assert(p->who_awaits_data);
          std::function<void(T)> temp;
          std::swap(temp, p->who_awaits_data);
          temp(std::move(value)); } }\<close>
\<close>

definition deliver ::
  "'v \<Rightarrow> ('r, 'h) slot_data shared
      \<Rightarrow> error + ('r, 'h) slot_data shared \<times> ('r, 'h, 'v) call list" where
  "deliver v wp =
     (case lock wp of
        Some (Shared n p) \<Rightarrow>
          (case who_awaits_data p of
             None \<Rightarrow> Inl Assertion_failed
           | Some temp \<Rightarrow> Inr (Shared n (p\<lparr>who_awaits_data := None\<rparr>), [Data_listener temp v]))
      | _ \<Rightarrow> Inr (wp, []))"

text \<open>
  The consumer's call of the slot works through the slot's own strong pointer, so it is
  a function of the record.

  \<^verbatim>\<open>void operator() (std::function<void(T)> data_listener) {
      assert(!ptr->who_awaits_data);
      ptr->who_awaits_data = std::move(data_listener);
      if (ptr->who_awaits_request) {
          std::function<void(bool)> temp;
          std::swap(temp, ptr->who_awaits_request);
          temp(/*terminate=*/false); } }\<close>
\<close>

definition request ::
  "'h \<Rightarrow> ('r, 'h) slot_data \<Rightarrow> error + ('r, 'h) slot_data \<times> ('r, 'h, 'v) call list" where
  "request data_listener d =
     (if who_awaits_data d \<noteq> None then Inl Assertion_failed
      else
        (let d1 = d\<lparr>who_awaits_data := Some data_listener\<rparr> in
         case who_awaits_request d1 of
           Some temp \<Rightarrow> Inr (d1\<lparr>who_awaits_request := None\<rparr>, [Request_listener temp False])
         | None \<Rightarrow> Inr (d1, [])))"

subsection \<open>Listeners as programs\<close>

text \<open>
  To follow a listener that itself uses the slot, listeners are given as programs: a
  listener maps its argument to the list of things it does, in order.  \<open>Request h\<close>
  is the consumer's call of the slot, \<open>Await r\<close> and \<open>Deliver v\<close> are the provider's
  methods, \<open>Copy_slot\<close> and \<open>Destroy_slot\<close> copy and destroy a consumer's slot
  object, and \<open>Note x\<close> stands for anything else the user's code does that can be seen
  from outside.
\<close>

datatype 'v action =
    Request "'v \<Rightarrow> 'v action list"
  | Await "bool \<Rightarrow> 'v action list"
  | Deliver 'v
  | Copy_slot
  | Destroy_slot
  | Note 'v

text \<open>
  The work still to be done is a list of frames; the call of a listener puts the
  listener's actions in front of it, so the listener runs to its end before its caller
  goes on.  \<open>Unlock\<close> is the end of a provider method that holds the strong pointer
  \<^verbatim>\<open>p\<close>.
\<close>

datatype 'v frame = Do "'v action" | Unlock

text \<open>What can be seen: calls of request listeners and of data listeners, and notes.\<close>

datatype 'v event = Awoken bool | Received 'v | Noted 'v

type_synonym 'v listeners = "(bool \<Rightarrow> 'v action list, 'v \<Rightarrow> 'v action list) slot_data"

text \<open>
  The state of the program: the slot's control block, the number of slot objects the
  consumer side holds, and what has been seen so far.
\<close>

record 'v program =
  slot_ptr :: "'v listeners shared"
  consumers :: nat
  trace :: "'v event list"

fun frames_of :: "(bool \<Rightarrow> 'v action list, 'v \<Rightarrow> 'v action list, 'v) call \<Rightarrow> 'v frame list" where
  "frames_of (Request_listener r t) = map Do (r t)"
| "frames_of (Data_listener h v) = map Do (h v)"

fun event_of :: "(bool \<Rightarrow> 'v action list, 'v \<Rightarrow> 'v action list, 'v) call \<Rightarrow> 'v event" where
  "event_of (Request_listener r t) = Awoken t"
| "event_of (Data_listener h v) = Received v"

definition called ::
  "(bool \<Rightarrow> 'v action list, 'v \<Rightarrow> 'v action list, 'v) call list \<Rightarrow> 'v program \<Rightarrow> 'v program" where
  "called cs w = w\<lparr>trace := trace w @ map event_of cs\<rparr>"

fun unlock_after :: "'d shared \<Rightarrow> 'v frame list" where
  "unlock_after (Shared n d) = [Unlock]"
| "unlock_after Expired = []"

text \<open>
  A run ends normally, or in a failed assertion, or because an action needs a slot object
  when the consumer side has none, or because the fuel has run out.
\<close>

datatype 'w outcome = Finished 'w | Aborted error | No_consumer | Out_of_fuel

fun exec :: "nat \<Rightarrow> 'v frame list \<Rightarrow> 'v program \<Rightarrow> 'v program outcome" where
  "exec 0 fs w = Out_of_fuel"
| "exec (Suc n) [] w = Finished w"
| "exec (Suc n) (Unlock # fs) w =
     (case release slot_data_dtor (slot_ptr w) of
        (blk, cs) \<Rightarrow> exec n (concat (map frames_of cs) @ fs) (called cs (w\<lparr>slot_ptr := blk\<rparr>)))"
| "exec (Suc n) (Do (Await r) # fs) w =
     (case await r (slot_ptr w) of
        Inl e \<Rightarrow> Aborted e
      | Inr (blk, cs) \<Rightarrow>
          exec n (concat (map frames_of cs) @ unlock_after (slot_ptr w) @ fs)
            (called cs (w\<lparr>slot_ptr := blk\<rparr>)))"
| "exec (Suc n) (Do (Deliver v) # fs) w =
     (case deliver v (slot_ptr w) of
        Inl e \<Rightarrow> Aborted e
      | Inr (blk, cs) \<Rightarrow>
          exec n (concat (map frames_of cs) @ unlock_after (slot_ptr w) @ fs)
            (called cs (w\<lparr>slot_ptr := blk\<rparr>)))"
| "exec (Suc n) (Do (Request h) # fs) w =
     (case slot_ptr w of
        Shared k d \<Rightarrow>
          if consumers w = 0 then No_consumer
          else (case request h d of
                  Inl e \<Rightarrow> Aborted e
                | Inr (d', cs) \<Rightarrow>
                    exec n (concat (map frames_of cs) @ fs)
                      (called cs (w\<lparr>slot_ptr := Shared k d'\<rparr>)))
      | Expired \<Rightarrow> No_consumer)"
| "exec (Suc n) (Do Copy_slot # fs) w =
     (if consumers w = 0 then No_consumer
      else exec n fs (w\<lparr>slot_ptr := acquire (slot_ptr w), consumers := Suc (consumers w)\<rparr>))"
| "exec (Suc n) (Do Destroy_slot # fs) w =
     (if consumers w = 0 then No_consumer
      else (case release slot_data_dtor (slot_ptr w) of
              (blk, cs) \<Rightarrow>
                exec n (concat (map frames_of cs) @ fs)
                  (called cs (w\<lparr>slot_ptr := blk, consumers := consumers w - 1\<rparr>))))"
| "exec (Suc n) (Do (Note x) # fs) w = exec n fs (w\<lparr>trace := trace w @ [Noted x]\<rparr>)"

text \<open>A new slot with one slot object, and a run of a list of actions from there.\<close>

definition start :: "'v program" where
  "start = \<lparr>slot_ptr = slot, consumers = 1, trace = []\<rparr>"

definition run :: "nat \<Rightarrow> 'v action list \<Rightarrow> 'v program outcome" where
  "run n as = exec n (map Do as) start"

text \<open>
  A provider's listener that delivers \<open>v\<close> when it is asked for data and notes \<open>0\<close>
  when it is told that the consumer has gone, and a consumer's listener that notes what it
  receives.
\<close>

definition answer :: "nat \<Rightarrow> bool \<Rightarrow> nat action list" where
  "answer v terminate = (if terminate then [Note 0] else [Deliver v])"

definition keep :: "nat \<Rightarrow> nat action list" where
  "keep v = [Note v]"

section \<open>The loop primitive: properties\<close>

subsection \<open>Counting invocations against continuation calls\<close>

text \<open>
  Every entry into \<open>operator()\<close> leaves the flag \<open>false\<close>, and between entry and
  exit the body has been started once more than the continuation has been called, unless
  the entry found the flag set, in which case it has been started exactly as often.
\<close>

lemma drive_invoke_balance:
  "drive n B st = Returned st' \<Longrightarrow>
      invocations st' + continues st + (if flag st then 1 else 0) = invocations st + continues st' + 1 \<and> \<not> flag st'"
  "invoke n B r st = Returned st' \<Longrightarrow>
      invocations st' + continues st + (if flag st then 1 else 0)
        = invocations st + continues st' + (if flag st' then 1 else 0)"
proof (induction n B st and n B r st arbitrary: st' and st' rule: drive_invoke.induct)
  case (1 B st)
  then show ?case by simp
next
  case (2 n B st)
  show ?case
  proof (cases "flag st")
    case True
    with "2.prems" show ?thesis by (auto simp: Let_def)
  next
    case False
    let ?st1 = "st\<lparr>flag := True\<rparr>"
    from False "2.prems" obtain st2 where
      i: "invoke n B (B (ctx ?st1)) (enter ?st1) = Returned st2" and
      d: "drive n B (leave st2) = Returned st'"
      by (auto simp: Let_def split: loop_run.splits)
    have f1: "flag (st\<lparr>flag := \<not> flag st\<rparr>)" using False by simp
    have e: "st\<lparr>flag := \<not> flag st\<rparr> = ?st1" using False by simp
    from "2.IH"(1)[OF refl f1] i e have
      a: "invocations st2 + continues (enter ?st1) + (if flag (enter ?st1) then 1 else 0)
        = invocations (enter ?st1) + continues st2 + (if flag st2 then 1 else 0)"
      by simp
    from "2.IH"(2)[OF refl f1 _ d] i e have
      b: "invocations st' + continues (leave st2) + (if flag (leave st2) then 1 else 0)
           = invocations (leave st2) + continues st' + 1 \<and> \<not> flag st'"
      by simp
    from a b False show ?thesis by (simp add: enter_def leave_def split: if_splits)
  qed
next
  case (3 B r st)
  then show ?case by simp
next
  case (4 n B s st)
  then show ?case by auto
next
  case (5 n B s k st)
  let ?st0 = "st\<lparr>ctx := s, continues := Suc (continues st)\<rparr>"
  from "5.prems" obtain st1 where
    d: "drive n B ?st0 = Returned st1" and
    i: "invoke n B (k (ctx st1)) st1 = Returned st'"
    by (auto split: loop_run.splits)
  from "5.IH"(1)[OF d] have
    a: "invocations st1 + continues ?st0 + (if flag ?st0 then 1 else 0)
          = invocations ?st0 + continues st1 + 1 \<and> \<not> flag st1" .
  from "5.IH"(2)[OF d i] have
    b: "invocations st' + continues st1 + (if flag st1 then 1 else 0)
        = invocations st1 + continues st' + (if flag st' then 1 else 0)" .
  from a b show ?case by (simp split: if_splits)
qed


subsection \<open>Fuel\<close>

text \<open>A run that finishes with some fuel finishes with the same record on any larger fuel.\<close>

lemma drive_invoke_fuel_mono:
  "drive n B st = Returned st' \<Longrightarrow> n \<le> m \<Longrightarrow> drive m B st = Returned st'"
  "invoke n B r st = Returned st' \<Longrightarrow> n \<le> m \<Longrightarrow> invoke m B r st = Returned st'"
proof (induction n B st and n B r st arbitrary: st' m and st' m rule: drive_invoke.induct)
  case (1 B st)
  then show ?case by simp
next
  case (2 n B st)
  from "2.prems" obtain m' where m: "m = Suc m'" and le: "n \<le> m'" by (cases m) auto
  show ?case
  proof (cases "flag st")
    case True
    with "2.prems" m show ?thesis by (auto simp: Let_def)
  next
    case False
    let ?st1 = "st\<lparr>flag := True\<rparr>"
    from False "2.prems" obtain st2 where
      i: "invoke n B (B (ctx ?st1)) (enter ?st1) = Returned st2" and
      d: "drive n B (leave st2) = Returned st'"
      by (auto simp: Let_def split: loop_run.splits)
    have f1: "flag (st\<lparr>flag := \<not> flag st\<rparr>)" using False by simp
    have e: "st\<lparr>flag := \<not> flag st\<rparr> = ?st1" using False by simp
    from "2.IH"(1)[OF refl f1 _ le] i e
    have i': "invoke m' B (B (ctx ?st1)) (enter ?st1) = Returned st2" by simp
    from "2.IH"(2)[OF refl f1 _ d le] i e
    have d': "drive m' B (leave st2) = Returned st'" by simp
    from i' d' False m show ?thesis by (simp add: Let_def)
  qed
next
  case (3 B r st)
  then show ?case by simp
next
  case (4 n B s st)
  then show ?case by (cases m) auto
next
  case (5 n B s k st)
  from "5.prems" obtain m' where m: "m = Suc m'" and le: "n \<le> m'" by (cases m) auto
  let ?st0 = "st\<lparr>ctx := s, continues := Suc (continues st)\<rparr>"
  from "5.prems" obtain st1 where
    d: "drive n B ?st0 = Returned st1" and
    i: "invoke n B (k (ctx st1)) st1 = Returned st'"
    by (auto split: loop_run.splits)
  from "5.IH"(1)[OF d le] have d': "drive m' B ?st0 = Returned st1" .
  from "5.IH"(2)[OF d i le] have i': "invoke m' B (k (ctx st1)) st1 = Returned st'" .
  from d' i' m show ?case by simp
qed

subsection \<open>Bodies that call the continuation at most once per invocation\<close>

lemma drive_flag_set:
  "flag st \<Longrightarrow> drive n B st = Returned st' \<Longrightarrow> st' = st\<lparr>flag := False\<rparr>"
  by (cases n) (auto simp: Let_def)

lemma invoke_Return:
  "invoke n B (Return s) st = Returned st' \<Longrightarrow> st' = st\<lparr>ctx := s\<rparr>"
  by (cases n) auto

lemma invoke_returns:
  "returns r \<Longrightarrow> invoke n B r st = Returned st' \<Longrightarrow>
     flag st' = flag st \<and> active st' = active st \<and> peak st' = peak st"
  by (cases r) (auto dest: invoke_Return)

lemma invoke_calls_once:
  assumes "calls_once r" and "invoke n B r st = Returned st'" and "flag st"
  shows "\<not> flag st' \<and> active st' = active st \<and> peak st' = peak st \<or>
         flag st' \<and> active st' = active st \<and> peak st' = peak st"
proof (cases r)
  case (Return s)
  with assms show ?thesis by (auto dest: invoke_Return)
next
  case (Call_next s k)
  with assms obtain m where n: "n = Suc m" by (cases n) auto
  let ?st0 = "st\<lparr>ctx := s, continues := Suc (continues st)\<rparr>"
  from assms Call_next n obtain st1 where
    d: "drive m B ?st0 = Returned st1" and i: "invoke m B (k (ctx st1)) st1 = Returned st'"
    by (auto split: loop_run.splits)
  from assms(3) have "flag ?st0" by simp
  from drive_flag_set[OF this d] have st1: "st1 = ?st0\<lparr>flag := False\<rparr>" .
  from assms(1) Call_next have "returns (k (ctx st1))" by simp
  from invoke_returns[OF this i] st1 show ?thesis by simp
qed

lemma one_shot_drive:
  "one_shot B \<Longrightarrow> drive n B st = Returned st' \<Longrightarrow> \<not> flag st \<Longrightarrow> active st = 0 \<Longrightarrow>
     \<not> flag st' \<and> active st' = 0 \<and> peak st' = max (peak st) 1"
proof (induction n arbitrary: st st')
  case 0
  then show ?case by simp
next
  case (Suc n)
  let ?st1 = "st\<lparr>flag := True\<rparr>"
  from Suc.prems obtain st2 where
    i: "invoke n B (B (ctx st)) (enter ?st1) = Returned st2" and
    d: "drive n B (leave st2) = Returned st'"
    by (auto simp: Let_def split: loop_run.splits)
  from Suc.prems(1) have c: "calls_once (B (ctx st))" by (simp add: one_shot_def)
  have f: "flag (enter ?st1)" by (simp add: enter_def)
  from invoke_calls_once[OF c i f] Suc.prems(4)
  have st2: "active st2 = 1" "peak st2 = max (peak st) 1"
    by (auto simp: enter_def)
  show ?case
  proof (cases "flag st2")
    case True
    then have "flag (leave st2)" by (simp add: leave_def)
    from drive_flag_set[OF this d] st2 show ?thesis by (simp add: leave_def)
  next
    case False
    then have "\<not> flag (leave st2)" "active (leave st2) = 0"
      using st2 by (simp_all add: leave_def)
    from Suc.IH[OF Suc.prems(1) d this] st2 show ?thesis by (simp add: leave_def)
  qed
qed

text \<open>The same bound for a run that the fuel cuts short.\<close>

lemma drive_flag_set_cut:
  "flag st \<Longrightarrow> drive n B st = Cut_off st' \<Longrightarrow> st' = st"
  by (cases n) (auto simp: Let_def)

lemma invoke_returns_cut:
  "returns r \<Longrightarrow> invoke n B r st = Cut_off st' \<Longrightarrow> st' = st"
  by (cases r; cases n) auto

lemma invoke_calls_once_cut:
  assumes "calls_once r" and "invoke n B r st = Cut_off st'" and "flag st"
  shows "active st' = active st \<and> peak st' = peak st"
proof (cases r)
  case (Return s)
  with assms show ?thesis by (cases n) auto
next
  case (Call_next s k)
  show ?thesis
  proof (cases n)
    case 0
    with assms show ?thesis by simp
  next
    case (Suc m)
    let ?st0 = "st\<lparr>ctx := s, continues := Suc (continues st)\<rparr>"
    have f0: "flag ?st0" using assms(3) by simp
    show ?thesis
    proof (cases "drive m B ?st0")
      case (Cut_off st1)
      with assms(2) Call_next Suc have "st' = st1" by simp
      with drive_flag_set_cut[OF f0 Cut_off] show ?thesis by simp
    next
      case (Returned st1)
      with assms(2) Call_next Suc have i: "invoke m B (k (ctx st1)) st1 = Cut_off st'" by simp
      from assms(1) Call_next have "returns (k (ctx st1))" by simp
      from invoke_returns_cut[OF this i] drive_flag_set[OF f0 Returned] show ?thesis by simp
    qed
  qed
qed

lemma one_shot_drive_cut:
  "one_shot B \<Longrightarrow> drive n B st = Cut_off st' \<Longrightarrow> \<not> flag st \<Longrightarrow> active st = 0 \<Longrightarrow>
     peak st' \<le> max (peak st) 1"
proof (induction n arbitrary: st st')
  case 0
  then show ?case by simp
next
  case (Suc n)
  let ?st1 = "st\<lparr>flag := True\<rparr>"
  from Suc.prems(1) have c: "calls_once (B (ctx st))" by (simp add: one_shot_def)
  have f: "flag (enter ?st1)" by (simp add: enter_def)
  show ?case
  proof (cases "invoke n B (B (ctx st)) (enter ?st1)")
    case (Cut_off st2)
    with Suc.prems have "st' = st2" by (simp add: Let_def)
    with invoke_calls_once_cut[OF c Cut_off f] Suc.prems(4) show ?thesis
      by (simp add: enter_def)
  next
    case (Returned st2)
    with Suc.prems have d: "drive n B (leave st2) = Cut_off st'" by (simp add: Let_def)
    from invoke_calls_once[OF c Returned f] Suc.prems(4)
    have st2: "active st2 = 1" "peak st2 = max (peak st) 1"
      by (auto simp: enter_def)
    show ?thesis
    proof (cases "flag st2")
      case True
      then have "flag (leave st2)" by (simp add: leave_def)
      from drive_flag_set_cut[OF this d] st2 show ?thesis by (simp add: leave_def)
    next
      case False
      then have "\<not> flag (leave st2)" "active (leave st2) = 0"
        using st2 by (simp_all add: leave_def)
      from Suc.IH[OF Suc.prems(1) d this] st2 show ?thesis by (simp add: leave_def)
    qed
  qed
qed

subsection \<open>Bodies that call the continuation two times\<close>

text \<open>
  A run of \<open>nest d\<close> from a fresh record makes \<open>2 * d\<close> continuation calls and has
  \<open>d + 1\<close> invocations of the body in progress at once: the depth of the nesting is not
  bounded by any constant.
\<close>

lemma drive_runI:
  assumes "\<not> flag st"
    and "invoke n B (B (ctx st)) (enter (st\<lparr>flag := True\<rparr>)) = Returned st2"
    and "drive m B (leave st2) = Returned st'"
  shows "drive (Suc (max n m)) B st = Returned st'"
proof -
  have "invoke (max n m) B (B (ctx st)) (enter (st\<lparr>flag := True\<rparr>)) = Returned st2"
    by (rule drive_invoke_fuel_mono(2)[OF assms(2)]) simp
  moreover have "drive (max n m) B (leave st2) = Returned st'"
    by (rule drive_invoke_fuel_mono(1)[OF assms(3)]) simp
  ultimately show ?thesis using assms(1) by (simp add: Let_def)
qed

lemma invoke_callI:
  assumes "drive n B (st\<lparr>ctx := s, continues := Suc (continues st)\<rparr>) = Returned st1"
    and "invoke m B (k (ctx st1)) st1 = Returned st'"
  shows "invoke (Suc (max n m)) B (Call_next s k) st = Returned st'"
proof -
  have "drive (max n m) B (st\<lparr>ctx := s, continues := Suc (continues st)\<rparr>) = Returned st1"
    by (rule drive_invoke_fuel_mono(1)[OF assms(1)]) simp
  moreover have "invoke (max n m) B (k (ctx st1)) st1 = Returned st'"
    by (rule drive_invoke_fuel_mono(2)[OF assms(2)]) simp
  ultimately show ?thesis by simp
qed

lemma nest_drive_last:
  assumes "\<not> flag st" and "ctx st = d"
  shows "\<exists>n st'. drive n (nest d) st = Returned st' \<and> \<not> flag st' \<and> ctx st' = d
        \<and> active st' = active st \<and> peak st' = max (peak st) (active st + 1)
        \<and> continues st' = continues st"
proof -
  let ?e = "enter (st\<lparr>flag := True\<rparr>)"
  have b: "nest d (ctx st) = Return d" using assms by (simp add: nest_def)
  have i: "invoke 1 (nest d) (nest d (ctx st)) ?e = Returned (?e\<lparr>ctx := d\<rparr>)"
    by (simp add: b)
  have dr: "drive 1 (nest d) (leave (?e\<lparr>ctx := d\<rparr>))
              = Returned ((leave (?e\<lparr>ctx := d\<rparr>))\<lparr>flag := False\<rparr>)"
    by (simp add: enter_def leave_def Let_def)
  from drive_runI[OF assms(1) i dr] show ?thesis
    by (intro exI conjI, assumption) (simp_all add: enter_def leave_def)
qed

lemma nest_drive:
  "\<not> flag st \<Longrightarrow> ctx st = c \<Longrightarrow> d = c + k \<Longrightarrow>
     \<exists>n st'. drive n (nest d) st = Returned st' \<and> \<not> flag st' \<and> ctx st' = d
        \<and> active st' = active st \<and> peak st' = max (peak st) (active st + k + 1)
        \<and> continues st' = continues st + 2 * k"
proof (induction k arbitrary: c st)
  case 0
  with nest_drive_last[of st d] show ?case by simp
next
  case (Suc k)
  let ?e = "enter (st\<lparr>flag := True\<rparr>)"
  let ?s1 = "?e\<lparr>ctx := Suc c, continues := Suc (continues ?e)\<rparr>"
  let ?s2 = "?s1\<lparr>flag := False\<rparr>"
  let ?s3 = "?s2\<lparr>ctx := Suc c, continues := Suc (continues ?s2)\<rparr>"
  have b: "nest d (ctx st) = Call_next (Suc c) (\<lambda>c'. Call_next c' Return)"
    using Suc.prems by (simp add: nest_def)
  have d1: "drive 1 (nest d) ?s1 = Returned ?s2"
    by (simp add: enter_def Let_def)
  have "\<not> flag ?s3" "ctx ?s3 = Suc c" "d = Suc c + k" using Suc.prems by simp_all
  from Suc.IH[OF this] obtain n st4 where
    d2: "drive n (nest d) ?s3 = Returned st4" and f4: "\<not> flag st4" and c4: "ctx st4 = d"
    and a4: "active st4 = active ?s3" and p4: "peak st4 = max (peak ?s3) (active ?s3 + k + 1)"
    and k4: "continues st4 = continues ?s3 + 2 * k"
    by blast
  have i3: "invoke 1 (nest d) (Return (ctx st4)) st4 = Returned st4" by simp
  have i2: "invoke (Suc (max n 1)) (nest d) (Call_next (ctx ?s2) Return) ?s2 = Returned st4"
    using invoke_callI[where n = n and B = "nest d" and st = ?s2 and s = "ctx ?s2" and ?st1.0 = st4
                         and m = 1 and k = Return and st' = st4] d2 i3
    by simp
  have i1: "invoke (Suc (max 1 (Suc (max n 1)))) (nest d) (nest d (ctx st)) ?e = Returned st4"
    unfolding b
    using invoke_callI[where n = 1 and B = "nest d" and st = ?e and s = "Suc c" and ?st1.0 = ?s2
                         and m = "Suc (max n 1)" and k = "\<lambda>c'. Call_next c' Return"
                         and st' = st4] d1 i2
    by simp
  have "\<not> flag (leave st4)" "ctx (leave st4) = d" using f4 c4 by (simp_all add: leave_def)
  from nest_drive_last[OF this] obtain m st' where
    d6: "drive m (nest d) (leave st4) = Returned st'" and f6: "\<not> flag st'" and c6: "ctx st' = d"
    and a6: "active st' = active (leave st4)"
    and p6: "peak st' = max (peak (leave st4)) (active (leave st4) + 1)"
    and k6: "continues st' = continues (leave st4)"
    by blast
  from drive_runI[OF Suc.prems(1) i1 d6]
  have "drive (Suc (max (Suc (max 1 (Suc (max n 1)))) m)) (nest d) st = Returned st'" .
  moreover have "active st' = active st" using a6 a4 by (simp add: leave_def enter_def)
  moreover have "peak st' = max (peak st) (active st + Suc k + 1)"
    using p6 p4 a4 by (simp add: leave_def enter_def)
  moreover have "continues st' = continues st + 2 * Suc k"
    using k6 k4 by (simp add: leave_def enter_def)
  ultimately show ?case using f6 c6 by blast
qed

lemma loop_depth_unbounded:
  "\<exists>n st. loop n (nest d) 0 = Returned st \<and> peak st = Suc d \<and> continues st = 2 * d"
proof -
  have "\<not> flag (new_record (0::nat))" "ctx (new_record (0::nat)) = 0" "d = 0 + d"
    by (simp_all add: new_record_def)
  from nest_drive[OF this] show ?thesis
    by (auto simp: loop_def new_record_def)
qed

subsection \<open>The claims about the loop\<close>

text \<open>
  C1 (as amended).  When every body invocation calls its continuation at most once,
  no invocation of the body starts while another one is in progress.  Entering
  \<open>operator()\<close> on a record at rest (flag \<open>false\<close>, no invocation in progress), as the
  constructor and every later asynchronous call of the continuation do, never has more
  than one invocation in progress, however many synchronous continuation calls the run
  contains: the bound holds for the record at every amount of fuel, whether the call has
  returned by then or not, and a call that returns leaves the record at rest again.
\<close>

theorem loop_one_shot_never_nested:
  assumes "one_shot B" and "\<not> flag st" and "active st = 0" and "peak st \<le> 1"
  shows "peak (last_state (drive n B st)) \<le> 1
       \<and> (\<forall>st'. drive n B st = Returned st' \<longrightarrow> active st' = 0 \<and> \<not> flag st')"
proof (cases "drive n B st")
  case (Returned st')
  from one_shot_drive[OF assms(1) Returned assms(2) assms(3)] assms(4) Returned
  show ?thesis by simp
next
  case (Cut_off st')
  from one_shot_drive_cut[OF assms(1) Cut_off assms(2) assms(3)] assms(4) Cut_off
  show ?thesis by simp
qed

theorem loop_one_shot_never_nested_witness:
  "one_shot countdown \<and> \<not> flag (new_record (3::nat)) \<and> active (new_record (3::nat)) = 0
   \<and> peak (new_record (3::nat)) \<le> 1
   \<and> drive 20 countdown (new_record 3)
       = Returned \<lparr>flag = False, ctx = 0, active = 0, peak = 1, invocations = 4, continues = 3\<rparr>
   \<and> peak (last_state (drive 20 countdown (new_record 3))) \<le> 1
   \<and> (active \<lparr>flag = False, ctx = 0::nat, active = 0, peak = 1, invocations = 4, continues = 3\<rparr> = 0
      \<and> \<not> flag \<lparr>flag = False, ctx = 0::nat, active = 0, peak = 1, invocations = 4, continues = 3\<rparr>)
   \<and> drive 2 countdown (new_record 3)
       = Cut_off \<lparr>flag = True, ctx = 2, active = 1, peak = 1, invocations = 1, continues = 1\<rparr>
   \<and> peak (last_state (drive 2 countdown (new_record 3))) \<le> 1"
proof -
  have h1: "one_shot countdown"
    by (simp add: one_shot_def countdown_def)
  have h2: "\<not> flag (new_record (3::nat))"
    by (simp add: new_record_def)
  have h3: "active (new_record (3::nat)) = 0"
    by (simp add: new_record_def)
  have h4: "peak (new_record (3::nat)) \<le> 1"
    by (simp add: new_record_def)
  have h5: "drive 20 countdown (new_record 3)
       = Returned \<lparr>flag = False, ctx = 0, active = 0, peak = 1, invocations = 4, continues = 3\<rparr>"
    by code_simp
  have h6: "drive 2 countdown (new_record 3)
       = Cut_off \<lparr>flag = True, ctx = 2, active = 1, peak = 1, invocations = 1, continues = 1\<rparr>"
    by code_simp
  note a = loop_one_shot_never_nested[OF h1 h2 h3 h4, of 20]
  note b = loop_one_shot_never_nested[OF h1 h2 h3 h4, of 2]
  note a1 = a[THEN conjunct1]
  note a2 = a[THEN conjunct2, THEN spec, THEN mp, OF h5]
  note b1 = b[THEN conjunct1]
  show ?thesis
    by (rule conjI[OF h1 conjI[OF h2 conjI[OF h3 conjI[OF h4 conjI[OF h5 conjI[OF a1
              conjI[OF a2 conjI[OF h6 b1]]]]]]]])
qed

text \<open>
  C1 as stated fails: the first invocation of \<open>twice\<close> calls its continuation two
  times.  The first call clears the flag and returns; the second finds the flag clear,
  sets it and runs the body while the first invocation is still in progress, so that two
  invocations are active at once (\<open>peak = 2\<close>).
\<close>

theorem loop_body_nested_counterexample:
  "loop 10 twice 0
     = Returned \<lparr>flag = False, ctx = 1, active = 0, peak = 2, invocations = 3, continues = 2\<rparr>"
  by (simp add: loop_def new_record_def twice_def enter_def leave_def Let_def eval_nat_numeral)

text \<open>
  C2.  Construction makes the shared record with the flag \<open>false\<close> and, given fuel,
  starts the body on the captured context with the flag set before anything else, so a
  constructor that returns has invoked the body at least once.  Every entry into
  \<open>operator()\<close> toggles the flag; if it is now \<open>false\<close> the call returns, and if it
  is now \<open>true\<close> the body is invoked and the routine is entered again.  A call of the
  continuation from the body is an entry into \<open>operator()\<close> on the same record.
\<close>

theorem loop_construction_drive:
  "flag (new_record c) = False
   \<and> loop (Suc n) B c =
       (case invoke n B (B c) (enter ((new_record c)\<lparr>flag := True\<rparr>)) of
          Cut_off st2 \<Rightarrow> Cut_off st2
        | Returned st2 \<Rightarrow> drive n B (leave st2))
   \<and> (\<forall>st'. loop n B c = Returned st' \<longrightarrow> 1 \<le> invocations st')
   \<and> drive (Suc n) B st =
       (if flag st then Returned (st\<lparr>flag := False\<rparr>)
        else (case invoke n B (B (ctx st)) (enter (st\<lparr>flag := True\<rparr>)) of
                Cut_off st2 \<Rightarrow> Cut_off st2
              | Returned st2 \<Rightarrow> drive n B (leave st2)))
   \<and> invoke (Suc n) B (Call_next s k) st =
       (case drive n B (st\<lparr>ctx := s, continues := Suc (continues st)\<rparr>) of
          Cut_off st1 \<Rightarrow> Cut_off st1
        | Returned st1 \<Rightarrow> invoke n B (k (ctx st1)) st1)"
proof -
  have a: "flag (new_record c) = False"
    by (simp add: new_record_def)
  have b: "loop (Suc n) B c =
       (case invoke n B (B c) (enter ((new_record c)\<lparr>flag := True\<rparr>)) of
          Cut_off st2 \<Rightarrow> Cut_off st2
        | Returned st2 \<Rightarrow> drive n B (leave st2))"
    by (simp add: loop_def new_record_def Let_def)
  have c: "\<forall>st'. loop n B c = Returned st' \<longrightarrow> 1 \<le> invocations st'"
  proof (intro allI impI)
    fix st' assume "loop n B c = Returned st'"
    then have "drive n B (new_record c) = Returned st'" by (simp add: loop_def)
    from drive_invoke_balance(1)[OF this] show "1 \<le> invocations st'"
      by (simp add: new_record_def)
  qed
  have d: "drive (Suc n) B st =
       (if flag st then Returned (st\<lparr>flag := False\<rparr>)
        else (case invoke n B (B (ctx st)) (enter (st\<lparr>flag := True\<rparr>)) of
                Cut_off st2 \<Rightarrow> Cut_off st2
              | Returned st2 \<Rightarrow> drive n B (leave st2)))"
    by (simp add: Let_def)
  have e: "invoke (Suc n) B (Call_next s k) st =
       (case drive n B (st\<lparr>ctx := s, continues := Suc (continues st)\<rparr>) of
          Cut_off st1 \<Rightarrow> Cut_off st1
        | Returned st1 \<Rightarrow> invoke n B (k (ctx st1)) st1)"
    by simp
  from a b c d e show ?thesis by blast
qed

theorem loop_construction_drive_witness:
  "loop 20 countdown 3
     = Returned \<lparr>flag = False, ctx = 0, active = 0, peak = 1, invocations = 4, continues = 3\<rparr>
   \<and> 1 \<le> invocations \<lparr>flag = False, ctx = 0::nat, active = 0, peak = 1, invocations = 4, continues = 3\<rparr>"
proof -
  have h: "loop 20 countdown 3
     = Returned \<lparr>flag = False, ctx = 0, active = 0, peak = 1, invocations = 4, continues = 3\<rparr>"
    by code_simp
  from loop_construction_drive[of 3 20 countdown]
  have "\<forall>st'. loop 20 countdown 3 = Returned st' \<longrightarrow> 1 \<le> invocations st'" by blast
  then have c: "1 \<le> invocations \<lparr>flag = False, ctx = 0::nat, active = 0, peak = 1, invocations = 4, continues = 3\<rparr>"
    using h by blast
  show ?thesis by (rule conjI[OF h c])
qed

text \<open>
  C8.  When the constructor returns, the body has been invoked exactly once more than
  the continuation has been called: a run with \<open>N\<close> synchronous continuation calls in
  total has \<open>N + 1\<close> body invocations, whichever invocations made the calls.
\<close>

theorem loop_invocations_count:
  "loop n B c = Returned st \<Longrightarrow> invocations st = continues st + 1"
  using drive_invoke_balance(1)[of n B "new_record c" st]
  by (simp add: loop_def new_record_def)

theorem loop_invocations_count_witness:
  "loop 10 twice 0
     = Returned \<lparr>flag = False, ctx = 1, active = 0, peak = 2, invocations = 3, continues = 2\<rparr>
   \<and> invocations \<lparr>flag = False, ctx = 1::nat, active = 0, peak = 2, invocations = 3, continues = 2\<rparr>
       = continues \<lparr>flag = False, ctx = 1::nat, active = 0, peak = 2, invocations = 3, continues = 2\<rparr> + 1"
proof -
  have h: "loop 10 twice 0
     = Returned \<lparr>flag = False, ctx = 1, active = 0, peak = 2, invocations = 3, continues = 2\<rparr>"
    by (simp add: loop_def new_record_def twice_def enter_def leave_def Let_def eval_nat_numeral)
  show ?thesis by (rule conjI[OF h loop_invocations_count[OF h]])
qed

section \<open>The result cell: properties\<close>

subsection \<open>The use count counts the holders\<close>

lemma cell_inv_result: "cell_inv cb (result cb v0)"
  by (simp add: cell_inv_def result_def)

lemma cell_inv_step:
  assumes "cell_inv cb w" and "cell_step op w = Some w'"
  shows "cell_inv cb w'"
proof (cases "ptr w")
  case Expired
  with assms show ?thesis
    by (cases op) (auto simp: cell_inv_def)
next
  case (Shared n d)
  have len0: "\<And>xs::('c \<Rightarrow> 'a \<Rightarrow> 'a) list. length xs \<le> 0 \<Longrightarrow> xs = []" by simp
  from Shared assms show ?thesis
  proof (cases op)
    case Destroy
    with Shared assms show ?thesis
      by (cases "setters w") (auto simp: cell_inv_def drop_owner_def data_t_dtor_def split: if_splits)
  next
    case (Destroy_setter i)
    with Shared assms show ?thesis
      by (auto simp: cell_inv_def drop_owner_def data_t_dtor_def min_def split: if_splits)
  qed (auto simp: cell_inv_def split: if_splits)
qed

lemma cell_inv_run:
  "cell_inv cb w \<Longrightarrow> cell_run ops w = Some w' \<Longrightarrow> cell_inv cb w'"
  by (induction ops arbitrary: w) (auto split: option.splits dest: cell_inv_step)








lemma cell_run_in_use:
  assumes "cell_run ops (result cb v0) = Some w" and "handles w \<noteq> 0 \<or> setters w \<noteq> []"
  shows "fired w = [] \<and> (\<exists>d. ptr w = Shared (handles w + length (setters w)) d)"
proof -
  have "cell_inv cb w" by (rule cell_inv_run[OF cell_inv_result assms(1)])
  with assms(2) show ?thesis
    by (cases "ptr w") (auto simp: cell_inv_def)
qed



subsection \<open>The steps of the holders, in full\<close>





lemma cell_step_Setter:
  assumes "cell_inv cb w" and "handles w \<noteq> 0"
  shows "\<exists>n d. ptr w = Shared n d
           \<and> cell_step (Setter put) w
               = Some (w\<lparr>ptr := Shared (Suc n) d, setters := setters w @ [put]\<rparr>)"
  using assms by (cases "ptr w") (auto simp: cell_inv_def)

lemma cell_step_Call_setter:
  assumes "cell_inv cb w" and "i < length (setters w)"
  shows "\<exists>n d. ptr w = Shared n d
           \<and> cell_step (Call_setter i x) w
               = Some (w\<lparr>ptr := Shared n (d\<lparr>data := (setters w ! i) x (data d)\<rparr>)\<rparr>)
           \<and> cell_step (Copy_setter i) w
               = Some (w\<lparr>ptr := Shared (Suc n) d, setters := setters w @ [setters w ! i]\<rparr>)"
  using assms by (cases "ptr w") (auto simp: cell_inv_def)

subsection \<open>The claims about the result cell\<close>



text \<open>
  C9.  In any state that the holders of a freshly constructed cell can reach:
  \<^verbatim>\<open>setter\<close>, called through a live handle, succeeds, adds one strong owner to the cell
  and one live closure bound to its field, and changes nothing else; calling a live
  closure with a value succeeds and stores the value through the closure's field into the
  cell's data, and copying a live closure adds one more strong owner bound to the same
  field; while a closure or a handle is alive the finalizer has not been called and the
  use count is the number of handles and closures; so a finalizer that has been called
  finds no closure and no handle alive.
\<close>

theorem result_setter_holds_cell:
  assumes "cell_run ops (result cb v0) = Some w"
  shows "(handles w \<noteq> 0 \<longrightarrow>
            (\<exists>n d. ptr w = Shared n d
                  \<and> cell_step (Setter put) w
                      = Some (w\<lparr>ptr := Shared (Suc n) d, setters := setters w @ [put]\<rparr>)))
       \<and> (i < length (setters w) \<longrightarrow>
            (\<exists>n d. ptr w = Shared n d
                  \<and> cell_step (Call_setter i x) w
                      = Some (w\<lparr>ptr := Shared n (d\<lparr>data := (setters w ! i) x (data d)\<rparr>)\<rparr>)
                  \<and> cell_step (Copy_setter i) w
                      = Some (w\<lparr>ptr := Shared (Suc n) d,
                                setters := setters w @ [setters w ! i]\<rparr>)))
       \<and> (setters w \<noteq> [] \<or> handles w \<noteq> 0 \<longrightarrow>
            fired w = [] \<and> (\<exists>d. ptr w = Shared (handles w + length (setters w)) d))
       \<and> (fired w \<noteq> [] \<longrightarrow> setters w = [] \<and> handles w = 0)"
proof -
  have inv: "cell_inv cb w" by (rule cell_inv_run[OF cell_inv_result assms])
  have a: "handles w \<noteq> 0 \<longrightarrow>
            (\<exists>n d. ptr w = Shared n d
                  \<and> cell_step (Setter put) w
                      = Some (w\<lparr>ptr := Shared (Suc n) d, setters := setters w @ [put]\<rparr>))"
    using cell_step_Setter[OF inv] by blast
  have b: "i < length (setters w) \<longrightarrow>
            (\<exists>n d. ptr w = Shared n d
                  \<and> cell_step (Call_setter i x) w
                      = Some (w\<lparr>ptr := Shared n (d\<lparr>data := (setters w ! i) x (data d)\<rparr>)\<rparr>)
                  \<and> cell_step (Copy_setter i) w
                      = Some (w\<lparr>ptr := Shared (Suc n) d,
                                setters := setters w @ [setters w ! i]\<rparr>))"
    using cell_step_Call_setter[OF inv] by blast
  have c: "setters w \<noteq> [] \<or> handles w \<noteq> 0 \<longrightarrow>
            fired w = [] \<and> (\<exists>d. ptr w = Shared (handles w + length (setters w)) d)"
    using cell_run_in_use[OF assms] by blast
  have d: "fired w \<noteq> [] \<longrightarrow> setters w = [] \<and> handles w = 0"
    using cell_run_in_use[OF assms] by blast
  show ?thesis by (rule conjI[OF a conjI[OF b conjI[OF c d]]])
qed

theorem result_setter_holds_cell_witness:
  "cell_run [Setter put_first] (result ''F'' (0::nat, 0::nat))
     = Some \<lparr>ptr = Shared 2 \<lparr>data = (0, 0), callback = ''F''\<rparr>, handles = 1,
             setters = [put_first], fired = []\<rparr>
   \<and> fired \<lparr>ptr = Shared 2 \<lparr>data = (0::nat, 0::nat), callback = ''F''\<rparr>, handles = 1,
             setters = [put_first], fired = []\<rparr> = []
   \<and> (\<exists>n d. ptr \<lparr>ptr = Shared 2 \<lparr>data = (0::nat, 0::nat), callback = ''F''\<rparr>, handles = 1,
                   setters = [put_first], fired = []\<rparr> = Shared n d
         \<and> cell_step (Call_setter 0 (10::nat))
              \<lparr>ptr = Shared 2 \<lparr>data = (0::nat, 0::nat), callback = ''F''\<rparr>, handles = 1,
               setters = [put_first], fired = []\<rparr>
           = Some (\<lparr>ptr = Shared 2 \<lparr>data = (0::nat, 0::nat), callback = ''F''\<rparr>, handles = 1,
                    setters = [put_first], fired = []\<rparr>
                   \<lparr>ptr := Shared n (d\<lparr>data :=
                      (setters \<lparr>ptr = Shared 2 \<lparr>data = (0::nat, 0::nat), callback = ''F''\<rparr>,
                                handles = 1, setters = [put_first], fired = []\<rparr> ! 0) 10
                        (data d)\<rparr>)\<rparr>)
         \<and> cell_step (Copy_setter 0)
              \<lparr>ptr = Shared 2 \<lparr>data = (0::nat, 0::nat), callback = ''F''\<rparr>, handles = 1,
               setters = [put_first], fired = []\<rparr>
           = Some (\<lparr>ptr = Shared 2 \<lparr>data = (0::nat, 0::nat), callback = ''F''\<rparr>, handles = 1,
                    setters = [put_first], fired = []\<rparr>
                   \<lparr>ptr := Shared (Suc n) d,
                    setters := setters \<lparr>ptr = Shared 2 \<lparr>data = (0::nat, 0::nat), callback = ''F''\<rparr>,
                                        handles = 1, setters = [put_first], fired = []\<rparr>
                               @ [setters \<lparr>ptr = Shared 2 \<lparr>data = (0::nat, 0::nat), callback = ''F''\<rparr>,
                                           handles = 1, setters = [put_first], fired = []\<rparr> ! 0]\<rparr>))
   \<and> cell_step (Call_setter 0 (10::nat))
        \<lparr>ptr = Shared 2 \<lparr>data = (0::nat, 0::nat), callback = ''F''\<rparr>, handles = 1,
         setters = [put_first], fired = []\<rparr>
     = Some \<lparr>ptr = Shared 2 \<lparr>data = (10, 0), callback = ''F''\<rparr>, handles = 1,
             setters = [put_first], fired = []\<rparr>
   \<and> cell_step (Setter put_second)
        \<lparr>ptr = Shared 2 \<lparr>data = (0::nat, 0::nat), callback = ''F''\<rparr>, handles = 1,
         setters = [put_first], fired = []\<rparr>
     = Some \<lparr>ptr = Shared 3 \<lparr>data = (0, 0), callback = ''F''\<rparr>, handles = 1,
             setters = [put_first, put_second], fired = []\<rparr>
   \<and> cell_step (Copy_setter 0)
        \<lparr>ptr = Shared 2 \<lparr>data = (0::nat, 0::nat), callback = ''F''\<rparr>, handles = 1,
         setters = [put_first], fired = []\<rparr>
     = Some \<lparr>ptr = Shared 3 \<lparr>data = (0, 0), callback = ''F''\<rparr>, handles = 1,
             setters = [put_first, put_first], fired = []\<rparr>"
proof -
  let ?W = "\<lparr>ptr = Shared 2 \<lparr>data = (0::nat, 0::nat), callback = ''F''\<rparr>, handles = 1,
             setters = [put_first], fired = []\<rparr>"
  have h: "cell_run [Setter put_first] (result ''F'' (0::nat, 0::nat)) = Some ?W"
    by (simp add: result_def)
  note T = result_setter_holds_cell[where i = 0 and x = "10::nat" and put = put_second, OF h]
  have u: "setters ?W \<noteq> [] \<or> handles ?W \<noteq> 0" by simp
  note c1 = T[THEN conjunct2, THEN conjunct2, THEN conjunct1, THEN mp, OF u, THEN conjunct1]
  have l: "0 < length (setters ?W)" by simp
  note c2 = T[THEN conjunct2, THEN conjunct1, THEN mp, OF l]
  have s: "cell_step (Call_setter 0 (10::nat)) ?W
     = Some \<lparr>ptr = Shared 2 \<lparr>data = (10, 0), callback = ''F''\<rparr>, handles = 1,
             setters = [put_first], fired = []\<rparr>"
    using c2 by (auto simp: put_first_def)
  have t: "cell_step (Setter put_second) ?W
     = Some \<lparr>ptr = Shared 3 \<lparr>data = (0, 0), callback = ''F''\<rparr>, handles = 1,
             setters = [put_first, put_second], fired = []\<rparr>"
    using T[THEN conjunct1] by auto
  have v: "cell_step (Copy_setter 0) ?W
     = Some \<lparr>ptr = Shared 3 \<lparr>data = (0, 0), callback = ''F''\<rparr>, handles = 1,
             setters = [put_first, put_first], fired = []\<rparr>"
    using c2 by auto
  show ?thesis
    by (rule conjI[OF h conjI[OF c1 conjI[OF c2 conjI[OF s conjI[OF t v]]]]])
qed

section \<open>The slot: properties\<close>

subsection \<open>The methods case by case\<close>

lemma await_Expired: "await r Expired = Inr (Expired, [Request_listener r True])"
  by (simp add: await_def)

lemma await_Shared:
  "await r (Shared n d) =
     (if who_awaits_request d \<noteq> None then Inl Assertion_failed
      else if who_awaits_data d \<noteq> None then Inr (Shared (Suc n) d, [Request_listener r False])
      else Inr (Shared (Suc n) (d\<lparr>who_awaits_request := Some r\<rparr>), []))"
  by (simp add: await_def)

lemma await_second_registration:
  "who_awaits_request d \<noteq> None \<Longrightarrow> await r (Shared n d) = Inl Assertion_failed"
  by (simp add: await_Shared)

lemma deliver_Expired: "deliver v Expired = Inr (Expired, [])"
  by (simp add: deliver_def)

lemma deliver_Shared:
  "deliver v (Shared n d) =
     (case who_awaits_data d of
        None \<Rightarrow> Inl Assertion_failed
      | Some h \<Rightarrow> Inr (Shared (Suc n) (d\<lparr>who_awaits_data := None\<rparr>), [Data_listener h v]))"
  by (simp add: deliver_def)

lemma request_cases:
  "request h d =
     (if who_awaits_data d \<noteq> None then Inl Assertion_failed
      else case who_awaits_request d of
             Some r \<Rightarrow> Inr (d\<lparr>who_awaits_data := Some h, who_awaits_request := None\<rparr>,
                            [Request_listener r False])
           | None \<Rightarrow> Inr (d\<lparr>who_awaits_data := Some h\<rparr>, []))"
  by (simp add: request_def Let_def split: option.splits)

subsection \<open>The claims about the slot\<close>

text \<open>
  C4.  Giving up a strong owner of the slot's record destroys the record exactly when
  it was the last one.  The destruction calls the registered request listener, once and
  with \<open>terminate = true\<close>, if one is registered, and calls nothing if none is; giving
  up an owner that is not the last calls nothing.
\<close>

theorem slot_destruction_notifies_producer:
  "release slot_data_dtor (Shared (Suc n) d) =
     (if n = 0
      then (Expired, case who_awaits_request d of
                       Some r \<Rightarrow> [Request_listener r True]
                     | None \<Rightarrow> [])
      else (Shared n d, []))"
  by (simp add: slot_data_dtor_def)

theorem slot_destruction_notifies_producer_witness:
  "release slot_data_dtor
     (Shared (Suc 0) \<lparr>who_awaits_request = Some ''r'', who_awaits_data = (None :: string option)\<rparr>)
     = (Expired, [Request_listener ''r'' True :: (string, string, nat) call])
   \<and> release slot_data_dtor
     (Shared (Suc 0) \<lparr>who_awaits_request = (None :: string option),
                      who_awaits_data = (None :: string option)\<rparr>)
     = (Expired, ([] :: (string, string, nat) call list))"
proof -
  let ?D = "\<lparr>who_awaits_request = Some ''r'', who_awaits_data = (None :: string option)\<rparr>"
  let ?E = "\<lparr>who_awaits_request = (None :: string option), who_awaits_data = (None :: string option)\<rparr>"
  have a: "(if (0::nat) = 0
            then (Expired, case who_awaits_request ?D of
                             Some r \<Rightarrow> [Request_listener r True]
                           | None \<Rightarrow> [])
            else (Shared 0 ?D, []))
           = (Expired, [Request_listener ''r'' True :: (string, string, nat) call])"
    by simp
  have b: "(if (0::nat) = 0
            then (Expired, case who_awaits_request ?E of
                             Some r \<Rightarrow> [Request_listener r True]
                           | None \<Rightarrow> [])
            else (Shared 0 ?E, []))
           = (Expired, ([] :: (string, string, nat) call list))"
    by simp
  show ?thesis
    by (rule conjI[OF trans[OF slot_destruction_notifies_producer a]
                      trans[OF slot_destruction_notifies_producer b]])
qed

text \<open>
  C5.  \<open>await\<close> on a slot that keeps the contract of the method, which on a live slot
  is that no request listener is registered yet, has three cases.  On an expired slot the
  listener is called at once with \<open>true\<close> and nothing is stored.  On a live slot with a
  data listener registered, the listener is called at once with \<open>false\<close> and nothing
  is stored.  On a live slot with no data listener, the listener is stored and not called.
\<close>

theorem await_cases:
  "(wp = Expired \<longrightarrow> await r wp = Inr (Expired, [Request_listener r True]))
   \<and> (\<forall>n d. wp = Shared n d \<and> who_awaits_request d = None \<and> who_awaits_data d \<noteq> None \<longrightarrow>
         await r wp = Inr (Shared (Suc n) d, [Request_listener r False]))
   \<and> (\<forall>n d. wp = Shared n d \<and> who_awaits_request d = None \<and> who_awaits_data d = None \<longrightarrow>
         await r wp = Inr (Shared (Suc n) (d\<lparr>who_awaits_request := Some r\<rparr>), []))"
  by (auto simp: await_Expired await_Shared)

theorem await_cases_witness:
  "await ''r'' (Expired :: (string, string) slot_data shared)
     = Inr (Expired, [Request_listener ''r'' True :: (string, string, nat) call])
   \<and> await ''r'' (Shared 1 \<lparr>who_awaits_request = None, who_awaits_data = Some ''h''\<rparr>)
     = Inr (Shared (Suc 1) \<lparr>who_awaits_request = None, who_awaits_data = Some ''h''\<rparr>,
            [Request_listener ''r'' False :: (string, string, nat) call])
   \<and> await ''r'' (Shared 1 \<lparr>who_awaits_request = None, who_awaits_data = (None :: string option)\<rparr>)
     = Inr (Shared (Suc 1) (\<lparr>who_awaits_request = None, who_awaits_data = (None :: string option)\<rparr>
                              \<lparr>who_awaits_request := Some ''r''\<rparr>),
            ([] :: (string, string, nat) call list))"
proof -
  let ?H = "\<lparr>who_awaits_request = (None :: string option), who_awaits_data = Some ''h''\<rparr>"
  let ?N = "\<lparr>who_awaits_request = (None :: string option), who_awaits_data = (None :: string option)\<rparr>"
  have h1: "(Expired :: (string, string) slot_data shared) = Expired" by simp
  have h3: "Shared 1 ?H = Shared 1 ?H \<and> who_awaits_request ?H = None \<and> who_awaits_data ?H \<noteq> None"
    by simp
  have h4: "Shared 1 ?N = Shared 1 ?N \<and> who_awaits_request ?N = None \<and> who_awaits_data ?N = None"
    by simp
  note c1 = await_cases[THEN conjunct1, THEN mp, OF h1]
  note c3 = await_cases[THEN conjunct2, THEN conjunct1, THEN spec, THEN spec, THEN mp, OF h3]
  note c4 = await_cases[THEN conjunct2, THEN conjunct2, THEN spec, THEN spec, THEN mp, OF h4]
  show ?thesis by (rule conjI[OF c1 conjI[OF c3 c4]])
qed

text \<open>
  C6.  The record has one place for a data listener and one for a request listener,
  and a listener is only ever put into an empty place: a \<open>request\<close> that does not fail
  found no data listener and leaves its own registered; an \<open>await\<close> on a live slot that
  does not fail found no request listener, and either stores its own or calls it at once.
  A \<open>deliver\<close> on a live slot that does not fail has emptied the data listener's place
  before it calls the listener, so that a \<open>request\<close> made in the record that the called
  listener finds does not fail and registers the new listener.
\<close>

theorem slot_single_registration:
  "(\<forall>d' (cs :: ('r, 'h, 'v) call list). request h d = Inr (d', cs) \<longrightarrow>
        who_awaits_data d = None \<and> who_awaits_data d' = Some h)
   \<and> (\<forall>m d' (cs :: ('r, 'h, 'v) call list). await r (Shared n d) = Inr (Shared m d', cs) \<longrightarrow>
        who_awaits_request d = None \<and> who_awaits_data d' = who_awaits_data d \<and>
        (who_awaits_request d' = Some r \<and> cs = [] \<and> who_awaits_data d = None
         \<or> who_awaits_request d' = None \<and> cs = [Request_listener r False]))
   \<and> (\<forall>blk (cs :: ('r, 'h, 'v) call list). deliver v (Shared n d) = Inr (blk, cs) \<longrightarrow>
        (\<exists>h0. who_awaits_data d = Some h0
             \<and> blk = Shared (Suc n) (d\<lparr>who_awaits_data := None\<rparr>)
             \<and> cs = [Data_listener h0 v]
             \<and> (\<forall>h2. \<exists>d2 (cs2 :: ('r, 'h, 'v) call list).
                    request h2 (d\<lparr>who_awaits_data := None\<rparr>) = Inr (d2, cs2)
                    \<and> who_awaits_data d2 = Some h2)))"
proof (intro conjI allI impI)
  fix d' and cs :: "('r, 'h, 'v) call list"
  assume "request h d = Inr (d', cs)"
  then show "who_awaits_data d = None" "who_awaits_data d' = Some h"
    by (auto simp: request_cases split: if_splits option.splits)
next
  fix m d' and cs :: "('r, 'h, 'v) call list"
  assume a: "await r (Shared n d) = Inr (Shared m d', cs)"
  then show "who_awaits_request d = None" "who_awaits_data d' = who_awaits_data d"
    by (auto simp: await_Shared split: if_splits)
  from a show "who_awaits_request d' = Some r \<and> cs = [] \<and> who_awaits_data d = None
         \<or> who_awaits_request d' = None \<and> cs = [Request_listener r False]"
    by (auto simp: await_Shared split: if_splits)
next
  fix blk and cs :: "('r, 'h, 'v) call list"
  assume a: "deliver v (Shared n d) = Inr (blk, cs)"
  then obtain h0 where h0: "who_awaits_data d = Some h0"
    and b: "blk = Shared (Suc n) (d\<lparr>who_awaits_data := None\<rparr>)" and c: "cs = [Data_listener h0 v]"
    by (auto simp: deliver_Shared split: option.splits)
  have "\<forall>h2. \<exists>d2 (cs2 :: ('r, 'h, 'v) call list).
          request h2 (d\<lparr>who_awaits_data := None\<rparr>) = Inr (d2, cs2) \<and> who_awaits_data d2 = Some h2"
    by (auto simp: request_cases split: option.splits)
  with h0 b c show "\<exists>h0. who_awaits_data d = Some h0
             \<and> blk = Shared (Suc n) (d\<lparr>who_awaits_data := None\<rparr>)
             \<and> cs = [Data_listener h0 v]
             \<and> (\<forall>h2. \<exists>d2 (cs2 :: ('r, 'h, 'v) call list).
                    request h2 (d\<lparr>who_awaits_data := None\<rparr>) = Inr (d2, cs2)
                    \<and> who_awaits_data d2 = Some h2)"
    by blast
qed

theorem slot_single_registration_witness:
  "request ''h'' \<lparr>who_awaits_request = (None :: string option), who_awaits_data = None\<rparr>
     = Inr (\<lparr>who_awaits_request = None, who_awaits_data = Some ''h''\<rparr>,
            ([] :: (string, string, nat) call list))
   \<and> (who_awaits_data \<lparr>who_awaits_request = (None :: string option),
                         who_awaits_data = (None :: string option)\<rparr> = None
      \<and> who_awaits_data \<lparr>who_awaits_request = (None :: string option),
                           who_awaits_data = Some ''h''\<rparr> = Some ''h'')
   \<and> await ''r'' (Shared 1 \<lparr>who_awaits_request = None, who_awaits_data = (None :: string option)\<rparr>)
     = Inr (Shared 2 \<lparr>who_awaits_request = Some ''r'', who_awaits_data = None\<rparr>,
            ([] :: (string, string, nat) call list))
   \<and> who_awaits_request \<lparr>who_awaits_request = (None :: string option),
                          who_awaits_data = (None :: string option)\<rparr> = None
   \<and> deliver (5::nat) (Shared 1 \<lparr>who_awaits_request = (None :: string option),
                                 who_awaits_data = Some ''h''\<rparr>)
     = Inr (Shared 2 \<lparr>who_awaits_request = None, who_awaits_data = None\<rparr>,
            [Data_listener ''h'' 5])
   \<and> (\<exists>h0. who_awaits_data \<lparr>who_awaits_request = (None :: string option),
                              who_awaits_data = Some ''h''\<rparr> = Some h0
          \<and> [Data_listener ''h'' (5::nat) :: (string, string, nat) call] = [Data_listener h0 5])"
proof -
  let ?N = "\<lparr>who_awaits_request = (None :: string option), who_awaits_data = (None :: string option)\<rparr>"
  let ?H = "\<lparr>who_awaits_request = (None :: string option), who_awaits_data = Some ''h''\<rparr>"
  let ?R = "\<lparr>who_awaits_request = Some ''r'', who_awaits_data = (None :: string option)\<rparr>"
  have h1: "request ''h'' ?N = Inr (?H, ([] :: (string, string, nat) call list))"
    by (simp add: request_def)
  have h2: "await ''r'' (Shared 1 ?N) = Inr (Shared 2 ?R, ([] :: (string, string, nat) call list))"
    by (simp add: await_def)
  have h3: "deliver (5::nat) (Shared 1 ?H) = Inr (Shared 2 ?N, [Data_listener ''h'' 5])"
    by (simp add: deliver_def)
  note c1 = slot_single_registration[THEN conjunct1, THEN spec, THEN spec, THEN mp, OF h1]
  note c2 = slot_single_registration[THEN conjunct2, THEN conjunct1, THEN spec, THEN spec,
                THEN spec, THEN mp, OF h2, THEN conjunct1]
  from slot_single_registration[THEN conjunct2, THEN conjunct2, THEN spec, THEN spec,
                THEN mp, OF h3]
  have c3: "\<exists>h0. who_awaits_data ?H = Some h0
          \<and> [Data_listener ''h'' (5::nat) :: (string, string, nat) call] = [Data_listener h0 5]"
    by blast
  show ?thesis by (rule conjI[OF h1 conjI[OF c1 conjI[OF h2 conjI[OF c2 conjI[OF h3 c3]]]]])
qed

text \<open>
  C7 (as amended).  On a live slot with a data listener registered, \<open>deliver\<close> takes
  the listener out of the record and calls it with the value.  On a live slot with no data
  listener the assertion fails.  On an expired slot \<open>deliver\<close> returns without a call
  and without a failure.
\<close>

theorem deliver_cases:
  "(wp = Expired \<longrightarrow> deliver v wp = Inr (Expired, []))
   \<and> (\<forall>n d. wp = Shared n d \<and> who_awaits_data d = None \<longrightarrow>
         deliver v wp = Inl Assertion_failed)
   \<and> (\<forall>n d h. wp = Shared n d \<and> who_awaits_data d = Some h \<longrightarrow>
         deliver v wp = Inr (Shared (Suc n) (d\<lparr>who_awaits_data := None\<rparr>), [Data_listener h v]))"
  by (auto simp: deliver_Expired deliver_Shared)

theorem deliver_cases_witness:
  "deliver (5::nat) (Expired :: (string, string) slot_data shared) = Inr (Expired, [])
   \<and> deliver (5::nat) (Shared 1 \<lparr>who_awaits_request = (None :: string option),
                                 who_awaits_data = (None :: string option)\<rparr>)
     = Inl Assertion_failed
   \<and> deliver (5::nat) (Shared 1 \<lparr>who_awaits_request = (None :: string option),
                                 who_awaits_data = Some ''h''\<rparr>)
     = Inr (Shared (Suc 1) (\<lparr>who_awaits_request = (None :: string option),
                             who_awaits_data = Some ''h''\<rparr>\<lparr>who_awaits_data := None\<rparr>),
            [Data_listener ''h'' 5])"
proof -
  let ?H = "\<lparr>who_awaits_request = (None :: string option), who_awaits_data = Some ''h''\<rparr>"
  let ?N = "\<lparr>who_awaits_request = (None :: string option), who_awaits_data = (None :: string option)\<rparr>"
  have h1: "(Expired :: (string, string) slot_data shared) = Expired" by simp
  have h2: "Shared 1 ?N = Shared 1 ?N \<and> who_awaits_data ?N = None" by simp
  have h3: "Shared 1 ?H = Shared 1 ?H \<and> who_awaits_data ?H = Some ''h''" by simp
  note c1 = deliver_cases[THEN conjunct1, THEN mp, OF h1]
  note c2 = deliver_cases[THEN conjunct2, THEN conjunct1, THEN spec, THEN spec, THEN mp, OF h2]
  note c3 = deliver_cases[THEN conjunct2, THEN conjunct2, THEN spec, THEN spec, THEN spec,
                          THEN mp, OF h3]
  show ?thesis by (rule conjI[OF c1 conjI[OF c2 c3]])
qed

text \<open>
  C7 as stated fails: once the consumer side is dead, \<open>deliver\<close> returns normally,
  having done nothing.
\<close>

theorem deliver_after_death_counterexample:
  "deliver (5::nat) (Expired :: (string, string) slot_data shared) = Inr (Expired, [])"
  by (simp add: deliver_def)

text \<open>
  C10.  When a request listener is parked and no data listener is registered,
  \<open>request h\<close> stores \<open>h\<close>, takes the parked listener out and calls it with
  \<open>false\<close>; the record that the called listener finds has \<open>h\<close> registered, and a
  \<open>deliver v\<close> on that record calls \<open>h\<close> with \<open>v\<close>.
\<close>

theorem request_wakes_parked_producer:
  assumes "who_awaits_request d = Some r" and "who_awaits_data d = None"
  shows "request h d
           = Inr (d\<lparr>who_awaits_data := Some h, who_awaits_request := None\<rparr>,
                  [Request_listener r False])
       \<and> deliver v (Shared n (d\<lparr>who_awaits_data := Some h, who_awaits_request := None\<rparr>))
           = Inr (Shared (Suc n) (d\<lparr>who_awaits_data := None, who_awaits_request := None\<rparr>),
                  [Data_listener h v])"
  using assms by (simp add: request_cases deliver_Shared)

theorem request_wakes_parked_producer_witness:
  "who_awaits_request \<lparr>who_awaits_request = Some ''r'', who_awaits_data = (None :: string option)\<rparr>
     = Some ''r''
   \<and> who_awaits_data \<lparr>who_awaits_request = Some ''r'', who_awaits_data = (None :: string option)\<rparr>
     = None
   \<and> (request ''h'' \<lparr>who_awaits_request = Some ''r'', who_awaits_data = (None :: string option)\<rparr>
         = Inr (\<lparr>who_awaits_request = Some ''r'', who_awaits_data = (None :: string option)\<rparr>
                  \<lparr>who_awaits_data := Some ''h'', who_awaits_request := None\<rparr>,
                [Request_listener ''r'' False :: (string, string, nat) call])
      \<and> deliver (5::nat)
           (Shared 1 (\<lparr>who_awaits_request = Some ''r'', who_awaits_data = (None :: string option)\<rparr>
                        \<lparr>who_awaits_data := Some ''h'', who_awaits_request := None\<rparr>))
         = Inr (Shared (Suc 1)
                  (\<lparr>who_awaits_request = Some ''r'', who_awaits_data = (None :: string option)\<rparr>
                     \<lparr>who_awaits_data := None, who_awaits_request := None\<rparr>),
                [Data_listener ''h'' 5]))"
proof -
  let ?R = "\<lparr>who_awaits_request = Some ''r'', who_awaits_data = (None :: string option)\<rparr>"
  have a: "who_awaits_request ?R = Some ''r''" by simp
  have b: "who_awaits_data ?R = None" by simp
  show ?thesis
    by (rule conjI[OF a conjI[OF b request_wakes_parked_producer[OF a b]]])
qed

section \<open>The slot: listeners as programs\<close>

subsection \<open>Steps\<close>

text \<open>
  A request that finds a parked provider whose listener delivers: the data listener of
  the request is called with the delivered value.  A delivery whose listener makes the
  next request: the request is registered.  The destruction of the last slot object: a
  parked listener is called with \<open>true\<close>, and without one nothing is called.
\<close>

lemma exec_request_parked:
  assumes "slot_ptr w = Shared k d" and "consumers w \<noteq> 0"
    and "who_awaits_request d = Some r" and "who_awaits_data d = None"
    and "r False = Deliver v # rest"
  shows "exec (Suc (Suc n)) (Do (Request h) # fs) w =
           exec n (map Do (h v) @ Unlock # map Do rest @ fs)
             (w\<lparr>slot_ptr := Shared (Suc k) (d\<lparr>who_awaits_request := None, who_awaits_data := None\<rparr>),
                trace := trace w @ [Awoken False, Received v]\<rparr>)"
  using assms by (simp add: request_def deliver_def called_def Let_def)

lemma exec_deliver_nested_request:
  assumes "slot_ptr w = Shared k d" and "consumers w \<noteq> 0"
    and "who_awaits_data d = Some h" and "who_awaits_request d = None"
    and "h v = Request h2 # rest"
  shows "exec (Suc (Suc n)) (Do (Deliver v) # fs) w =
           exec n (map Do rest @ Unlock # fs)
             (w\<lparr>slot_ptr := Shared (Suc k) (d\<lparr>who_awaits_data := Some h2\<rparr>),
                trace := trace w @ [Received v]\<rparr>)"
  using assms by (simp add: request_def deliver_def called_def Let_def)

lemma exec_destroy_last_parked:
  assumes "slot_ptr w = Shared 1 d" and "consumers w = 1" and "who_awaits_request d = Some r"
  shows "exec (Suc n) (Do Destroy_slot # fs) w =
           exec n (map Do (r True) @ fs)
             (w\<lparr>slot_ptr := Expired, consumers := 0, trace := trace w @ [Awoken True]\<rparr>)"
  using assms by (simp add: slot_data_dtor_def called_def)

lemma exec_destroy_last_idle:
  assumes "slot_ptr w = Shared 1 d" and "consumers w = 1" and "who_awaits_request d = None"
  shows "exec (Suc n) (Do Destroy_slot # fs) w =
           exec n fs (w\<lparr>slot_ptr := Expired, consumers := 0\<rparr>)"
  using assms by (simp add: slot_data_dtor_def called_def)

subsection \<open>Runs\<close>

text \<open>
  The consumer abandons the slot while the provider waits; the two orders of the
  rendezvous; a request made from inside the listener that receives the data; the
  provider's methods after the consumer has gone; the three contract violations; and a
  slot object destroyed inside a listener, where the record lives on until the provider
  methods in progress have returned.
\<close>

lemmas slot_program_defs = run_def start_def slot_def await_def request_def deliver_def called_def
  slot_data_dtor_def answer_def keep_def eval_nat_numeral

lemma run_abandoned:
  "run 5 [Await (answer 42), Destroy_slot]
     = Finished \<lparr>slot_ptr = Expired, consumers = 0, trace = [Awoken True, Noted 0]\<rparr>"
  by (simp add: slot_program_defs)

lemma run_producer_first:
  "run 8 [Await (answer 42), Request keep, Destroy_slot]
     = Finished \<lparr>slot_ptr = Expired, consumers = 0,
                 trace = [Awoken False, Received 42, Noted 42]\<rparr>"
  by (simp add: slot_program_defs)

lemma run_consumer_first:
  "run 8 [Request keep, Await (answer 42), Destroy_slot]
     = Finished \<lparr>slot_ptr = Expired, consumers = 0,
                 trace = [Awoken False, Received 42, Noted 42]\<rparr>"
  by (simp add: slot_program_defs)

lemma run_request_inside_listener:
  "run 20 [Request (\<lambda>v. [Note v, Request keep]), Await (answer 1), Await (answer 2), Destroy_slot]
     = Finished \<lparr>slot_ptr = Expired, consumers = 0,
                 trace = [Awoken False, Received 1, Noted 1, Awoken False, Received 2, Noted 2]\<rparr>"
  by (simp add: slot_program_defs)

lemma run_deliver_after_death:
  "run 3 [Destroy_slot, Deliver 5]
     = Finished \<lparr>slot_ptr = Expired, consumers = 0, trace = ([] :: nat event list)\<rparr>"
  by (simp add: slot_program_defs)

lemma run_await_after_death:
  "run 5 [Destroy_slot, Await (answer 5)]
     = Finished \<lparr>slot_ptr = Expired, consumers = 0, trace = [Awoken True, Noted 0]\<rparr>"
  by (simp add: slot_program_defs)

lemma run_second_await:
  "run 4 [Await (answer 1), Await (answer 2)] = Aborted Assertion_failed"
  by (simp add: slot_program_defs)

lemma run_second_request:
  "run 3 [Request keep, Request keep] = Aborted Assertion_failed"
  by (simp add: slot_program_defs)

lemma run_deliver_unrequested:
  "run 2 [Deliver (5::nat)] = Aborted Assertion_failed"
  by (simp add: slot_program_defs)

lemma run_destruction_deferred:
  "run 20 [Request (\<lambda>v. [Note v, Destroy_slot, Await (answer 9)]), Await (answer 1), Note 7]
     = Finished \<lparr>slot_ptr = Expired, consumers = 0,
                 trace = [Awoken False, Received 1, Noted 1, Awoken True, Noted 0, Noted 7]\<rparr>"
  by (simp add: slot_program_defs)

end
